theory Spec2Isabelle
  imports Main "HOL-Library.AList"
begin

section \<open>The date-range pattern of \<open>LeafletScraper.__parser_date\<close>\<close>

text \<open>
  A text is a list of characters; a \<^typ>\<open>char\<close> stands for the code point of the same
  number, so the texts of this development are the Python strings whose code points are
  below 256. On that range the class \<^verbatim>\<open>\d\<close> of a Python 3 string pattern is the ten
  ASCII digits, and \<^verbatim>\<open>\s\<close> is the set of characters for which \<^verbatim>\<open>str.isspace\<close> holds.
\<close>

definition is_digit :: "char \<Rightarrow> bool" where
  "is_digit c = (c \<in> set ''0123456789'')"

definition is_space :: "char \<Rightarrow> bool" where
  "is_space c = (c \<in> set [CHR 0x09, CHR 0x0A, CHR 0x0B, CHR 0x0C, CHR 0x0D,
                            CHR 0x1C, CHR 0x1D, CHR 0x1E, CHR 0x1F, CHR 0x20,
                            CHR 0x85, CHR 0xA0])"

text \<open>
  The pattern is run by a backtracking matcher. A matcher maps the text at the current
  position to the list of its ways to match there, each a pair of the characters consumed
  and the text left, in the order in which the engine tries them: a greedy operator tries
  the longer alternative first, and the engine commits to the first way whose
  continuation succeeds.
\<close>

type_synonym matcher = "string \<Rightarrow> (string \<times> string) list"

definition re_class :: "(char \<Rightarrow> bool) \<Rightarrow> matcher" where
  "re_class p s = (case s of [] \<Rightarrow> [] | c # cs \<Rightarrow> if p c then [([c], cs)] else [])"

definition re_lit :: "char \<Rightarrow> matcher" where
  "re_lit x = re_class (\<lambda>c. c = x)"

definition re_seq :: "matcher \<Rightarrow> matcher \<Rightarrow> matcher" where
  "re_seq m1 m2 s =
     concat (map (\<lambda>(a, r). map (\<lambda>(b, r'). (a @ b, r')) (m2 r)) (m1 s))"

definition re_opt :: "matcher \<Rightarrow> matcher" where
  "re_opt m s = m s @ [([], s)]"

fun re_star_class :: "(char \<Rightarrow> bool) \<Rightarrow> matcher" where
  "re_star_class p [] = [([], [])]"
| "re_star_class p (c # cs) =
     (if p c then map (\<lambda>(a, r). (c # a, r)) (re_star_class p cs) else []) @ [([], c # cs)]"

definition re_eps :: matcher where
  "re_eps s = [([], s)]"

fun re_rep :: "nat \<Rightarrow> matcher \<Rightarrow> matcher" where
  "re_rep 0 m = re_eps"
| "re_rep (Suc n) m = re_seq m (re_rep n m)"

text \<open>
  \<^verbatim>\<open>(\d{2}\.\d{2}\.?(?:\d{4})?)\s*-\s*(\d{2}\.\d{2}\.\d{4})\<close>: the two capture groups and the
  separator between them.
\<close>

definition group1 :: matcher where
  "group1 =
     re_seq (re_rep 2 (re_class is_digit))
    (re_seq (re_lit CHR ''.'')
    (re_seq (re_rep 2 (re_class is_digit))
    (re_seq (re_opt (re_lit CHR ''.''))
            (re_opt (re_rep 4 (re_class is_digit))))))"

definition separator :: matcher where
  "separator = re_seq (re_star_class is_space) (re_seq (re_lit CHR ''-'') (re_star_class is_space))"

definition group2 :: matcher where
  "group2 =
     re_seq (re_rep 2 (re_class is_digit))
    (re_seq (re_lit CHR ''.'')
    (re_seq (re_rep 2 (re_class is_digit))
    (re_seq (re_lit CHR ''.'')
            (re_rep 4 (re_class is_digit)))))"

definition pattern :: "string \<Rightarrow> ((string \<times> string) \<times> string) list" where
  "pattern s =
     concat (map (\<lambda>(g1, r1).
       concat (map (\<lambda>(w, r2).
         map (\<lambda>(g2, r3). ((g1, g2), r3)) (group2 r2)) (separator r1))) (group1 s))"

text \<open>
  \<^verbatim>\<open>pattern.search(dates)\<close> tries the start positions from left to right, the end of
  the text included, and returns the first match of the first position that has one.
\<close>

fun search :: "string \<Rightarrow> (string \<times> string) option" where
  "search s =
     (case pattern s of
        (groups, r) # _ \<Rightarrow> Some groups
      | [] \<Rightarrow> (case s of [] \<Rightarrow> None | c # cs \<Rightarrow> search cs))"

definition parser_date :: "string \<Rightarrow> string \<times> string" where
  "parser_date dates =
     (case search dates of
        None \<Rightarrow> ('''', '''')
      | Some (start, end) \<Rightarrow> (start, end))"

subsection \<open>The shapes of the two tokens\<close>

text \<open>
  What the two groups accept, read off the pattern: \<open>dd_dd\<close> is \<^verbatim>\<open>\d{2}\.\d{2}\<close>,
  \<open>yyyy\<close> is \<^verbatim>\<open>\d{4}\<close>. The first group is \<^verbatim>\<open>\d{2}\.\d{2}\<close>, then a dot or nothing, then
  \<^verbatim>\<open>\d{4}\<close> or nothing; the second group is \<^verbatim>\<open>\d{2}\.\d{2}\.\d{4}\<close>. A date range is a
  start token, white space, a hyphen, white space and an end token.

  \<open>spec_start_token\<close> is the start token as the specification words it: day and month,
  optionally followed by a dot and a year.
\<close>

fun dd_dd :: "string \<Rightarrow> bool" where
  "dd_dd [a, b, c, d, e] = (is_digit a \<and> is_digit b \<and> c = CHR ''.'' \<and> is_digit d \<and> is_digit e)"
| "dd_dd _ = False"

fun yyyy :: "string \<Rightarrow> bool" where
  "yyyy [a, b, c, d] = (is_digit a \<and> is_digit b \<and> is_digit c \<and> is_digit d)"
| "yyyy _ = False"

fun dot_yyyy :: "string \<Rightarrow> bool" where
  "dot_yyyy (c # y) = (c = CHR ''.'' \<and> yyyy y)"
| "dot_yyyy [] = False"

definition start_token :: "string \<Rightarrow> bool" where
  "start_token g = (dd_dd (take 5 g) \<and>
     (drop 5 g = [] \<or> drop 5 g = ''.'' \<or> yyyy (drop 5 g) \<or> dot_yyyy (drop 5 g)))"

definition end_token :: "string \<Rightarrow> bool" where
  "end_token g = (dd_dd (take 5 g) \<and> dot_yyyy (drop 5 g))"

definition spec_start_token :: "string \<Rightarrow> bool" where
  "spec_start_token g = (dd_dd (take 5 g) \<and> (drop 5 g = [] \<or> dot_yyyy (drop 5 g)))"

definition range_text :: "string \<Rightarrow> string \<Rightarrow> string \<Rightarrow> string \<Rightarrow> string" where
  "range_text start w1 w2 end = start @ w1 @ ''-'' @ w2 @ end"

definition is_range :: "string \<Rightarrow> string \<Rightarrow> string \<Rightarrow> string \<Rightarrow> bool" where
  "is_range start w1 w2 end =
     (start_token start \<and> list_all is_space w1 \<and> list_all is_space w2 \<and> end_token end)"

section \<open>Records, the collection and the scraper\<close>

text \<open>
  The exceptions the code can raise: \<^verbatim>\<open>None['src']\<close> is a \<^verbatim>\<open>TypeError\<close>, a missing
  attribute or dictionary key a \<^verbatim>\<open>KeyError\<close>, \<^verbatim>\<open>None.text\<close> an \<^verbatim>\<open>AttributeError\<close>,
  and a failed request whatever \<^verbatim>\<open>requests\<close> raises.
\<close>

datatype error = TypeError | KeyError | AttributeError | RequestException

subsection \<open>\<open>Leaflet\<close>\<close>

record leaflet =
  title :: string
  thumbnail :: string
  shop_name :: string
  valid_from :: string
  valid_to :: string
  parsed_time :: string

definition to_dict :: "leaflet \<Rightarrow> (string \<times> string) list" where
  "to_dict self =
     [(''title'', title self),
      (''thumbnail'', thumbnail self),
      (''shop_name'', shop_name self),
      (''valid_from'', valid_from self),
      (''valid_to'', valid_to self),
      (''parsed_time'', parsed_time self)]"

subsection \<open>\<open>LeafletCollection\<close>\<close>

text \<open>
  A Python dictionary keeps its keys in insertion order: it is an association list in
  which \<^const>\<open>AList.update\<close> replaces the value of a key in place and puts a new key at
  the end. \<^verbatim>\<open>d[key]\<close> raises \<^verbatim>\<open>KeyError\<close> on a key that is not there.
\<close>

type_synonym collection = "(string \<times> leaflet list) list"

definition getitem :: "('k \<times> 'v) list \<Rightarrow> 'k \<Rightarrow> error + 'v" where
  "getitem d key = (case map_of d key of None \<Rightarrow> Inl KeyError | Some v \<Rightarrow> Inr v)"

definition append_coll :: "collection \<Rightarrow> string \<Rightarrow> leaflet list \<Rightarrow> error + collection" where
  "append_coll collection key data =
     (let collection1 =
            (if key \<notin> set (map fst collection) then AList.update key [] collection
             else collection)
      in case getitem collection1 key of
           Inl e \<Rightarrow> Inl e
         | Inr leaflets \<Rightarrow> Inr (AList.update key (leaflets @ data) collection1))"

text \<open>
  \<^verbatim>\<open>__serialize\<close>: the inner loop appends one dictionary per leaflet to
  \<^verbatim>\<open>serializable[hypermarket_name]\<close>, the outer loop runs over the items of the
  collection.
\<close>

type_synonym serializable = "(string \<times> (string \<times> string) list list) list"

fun serialize_leaflets :: "string \<Rightarrow> leaflet list \<Rightarrow> serializable \<Rightarrow> error + serializable" where
  "serialize_leaflets hypermarket_name [] serializable = Inr serializable"
| "serialize_leaflets hypermarket_name (leaflet # leaflets) serializable =
     (case getitem serializable hypermarket_name of
        Inl e \<Rightarrow> Inl e
      | Inr dicts \<Rightarrow>
          serialize_leaflets hypermarket_name leaflets
            (AList.update hypermarket_name (dicts @ [to_dict leaflet]) serializable))"

fun serialize_items :: "collection \<Rightarrow> serializable \<Rightarrow> error + serializable" where
  "serialize_items [] serializable = Inr serializable"
| "serialize_items ((hypermarket_name, leaflets) # items) serializable =
     (case serialize_leaflets hypermarket_name leaflets
             (AList.update hypermarket_name [] serializable) of
        Inl e \<Rightarrow> Inl e
      | Inr serializable1 \<Rightarrow> serialize_items items serializable1)"

definition serialize :: "collection \<Rightarrow> error + serializable" where
  "serialize collection = serialize_items collection []"

subsection \<open>The capabilities the scraper is given\<close>

text \<open>
  An element of a parsed page has its text, its attributes, and for every selector the
  list of the elements \<^verbatim>\<open>select\<close> finds below it, in document order;
  \<^verbatim>\<open>select_one\<close> is the first of them or \<^verbatim>\<open>None\<close>.
\<close>

datatype element =
  Element (elem_text: string) (attrs: "(string \<times> string) list") (select: "string \<Rightarrow> element list")

definition select_one :: "element \<Rightarrow> string \<Rightarrow> element option" where
  "select_one element selector =
     (case select element selector of [] \<Rightarrow> None | found # _ \<Rightarrow> Some found)"

definition elem_get :: "element \<Rightarrow> string \<Rightarrow> string option" where
  "elem_get element key = map_of (attrs element) key"

text \<open>
  The world outside the program is a state \<open>'w\<close> that every request and every reading of
  the clock may change: \<^verbatim>\<open>HttpClient.get\<close> returns the content of the response or raises,
  the markup parser turns a content into the root element of the page, and the clock
  returns \<^verbatim>\<open>datetime.now()\<close> in the format \<^verbatim>\<open>%Y-%m-%d %H:%M:%S\<close>.
\<close>

record 'w capabilities =
  http_client_get :: "string \<Rightarrow> 'w \<Rightarrow> (error + string) \<times> 'w"
  html_parser :: "string \<Rightarrow> element"
  datetime_now :: "'w \<Rightarrow> string \<times> 'w"

definition Leaflet_init ::
  "'w capabilities \<Rightarrow> string \<Rightarrow> string \<Rightarrow> string \<Rightarrow> string \<Rightarrow> string \<Rightarrow> 'w \<Rightarrow> leaflet \<times> 'w" where
  "Leaflet_init caps title0 thumbnail0 shop_name0 valid_from0 valid_to0 w =
     (case datetime_now caps w of
        (stamp, w1) \<Rightarrow>
          (\<lparr>title = title0, thumbnail = thumbnail0, shop_name = shop_name0,
            valid_from = valid_from0, valid_to = valid_to0, parsed_time = stamp\<rparr>, w1))"

subsection \<open>\<open>LeafletScraper\<close>\<close>

definition HYPERMARKET_LINK_SELECTOR :: string where
  "HYPERMARKET_LINK_SELECTOR = ''#left-category-shops > li > a''"

definition LEAFLET_ELEMENT_SELECTOR :: string where
  "LEAFLET_ELEMENT_SELECTOR = ''.page-body div.brochure-thumb''"

definition DATE_SELECTOR :: string where
  "DATE_SELECTOR = ''.letak-description p:has(small) > small.hidden-sm''"

definition base_url :: string where
  "base_url = ''https://www.prospektmaschine.de''"

definition strip :: "string \<Rightarrow> string" where
  "strip s = rev (dropWhile is_space (rev (dropWhile is_space s)))"

definition extract_leaflet_data ::
  "'w capabilities \<Rightarrow> element \<Rightarrow> string \<Rightarrow> 'w \<Rightarrow> (error + leaflet) \<times> 'w" where
  "extract_leaflet_data caps element hypermarket_name w =
     (case select_one element ''picture img'' of
        None \<Rightarrow> (Inl TypeError, w)
      | Some img \<Rightarrow>
          (case getitem (attrs img) ''src'' of
             Inl e \<Rightarrow> (Inl e, w)
           | Inr leaflet_thumbnail \<Rightarrow>
               (case select_one element DATE_SELECTOR of
                  None \<Rightarrow> (Inl AttributeError, w)
                | Some small \<Rightarrow>
                    (case parser_date (elem_text small) of
                       (start, end) \<Rightarrow>
                         (case Leaflet_init caps ''Prospekt'' leaflet_thumbnail
                                 hypermarket_name start end w of
                            (leaflet, w1) \<Rightarrow> (Inr leaflet, w1))))))"

fun extract_elements ::
  "'w capabilities \<Rightarrow> element list \<Rightarrow> string \<Rightarrow> leaflet list \<Rightarrow> 'w
     \<Rightarrow> (error + leaflet list) \<times> 'w" where
  "extract_elements caps [] hypermarket_name leaflets w = (Inr leaflets, w)"
| "extract_elements caps (element # elements) hypermarket_name leaflets w =
     (case extract_leaflet_data caps element hypermarket_name w of
        (Inl e, w1) \<Rightarrow> (Inl e, w1)
      | (Inr leaflet, w1) \<Rightarrow>
          extract_elements caps elements hypermarket_name (leaflets @ [leaflet]) w1)"

definition scrape_leaflets ::
  "'w capabilities \<Rightarrow> string \<Rightarrow> string \<Rightarrow> 'w \<Rightarrow> (error + leaflet list) \<times> 'w" where
  "scrape_leaflets caps url hypermarket_name w =
     (case http_client_get caps url w of
        (Inl e, w1) \<Rightarrow> (Inl e, w1)
      | (Inr content, w1) \<Rightarrow>
          extract_elements caps
            (select (html_parser caps content) LEAFLET_ELEMENT_SELECTOR)
            hypermarket_name [] w1)"

definition link_name :: "element \<Rightarrow> string" where
  "link_name link = strip (elem_text link)"

definition link_url :: "element \<Rightarrow> string" where
  "link_url link =
     base_url @ (case elem_get link ''href'' of None \<Rightarrow> ''None'' | Some href \<Rightarrow> href)"

fun scrape_links ::
  "'w capabilities \<Rightarrow> element list \<Rightarrow> collection \<Rightarrow> 'w \<Rightarrow> (error + collection) \<times> 'w" where
  "scrape_links caps [] leaflet_collection w = (Inr leaflet_collection, w)"
| "scrape_links caps (link # links) leaflet_collection w =
     (case scrape_leaflets caps (link_url link) (link_name link) w of
        (Inl e, w1) \<Rightarrow> (Inl e, w1)
      | (Inr leaflets, w1) \<Rightarrow>
          (case append_coll leaflet_collection (link_name link) leaflets of
             Inl e \<Rightarrow> (Inl e, w1)
           | Inr leaflet_collection1 \<Rightarrow> scrape_links caps links leaflet_collection1 w1))"

definition scrape_all_leaflets :: "'w capabilities \<Rightarrow> 'w \<Rightarrow> (error + collection) \<times> 'w" where
  "scrape_all_leaflets caps w =
     (case http_client_get caps (base_url @ ''/hypermarkte/'') w of
        (Inl e, w1) \<Rightarrow> (Inl e, w1)
      | (Inr content, w1) \<Rightarrow>
          scrape_links caps
            (select (html_parser caps content) HYPERMARKET_LINK_SELECTOR) [] w1)"

subsection \<open>The orchestration as the specification words it\<close>

text \<open>
  For each retailer in the order of the links, run the listing scraper; then append the
  name of each retailer with its records, one call for each, in the same order.
\<close>

fun scrape_each ::
  "'w capabilities \<Rightarrow> element list \<Rightarrow> 'w \<Rightarrow> (error + leaflet list list) \<times> 'w" where
  "scrape_each caps [] w = (Inr [], w)"
| "scrape_each caps (link # links) w =
     (case scrape_leaflets caps (link_url link) (link_name link) w of
        (Inl e, w1) \<Rightarrow> (Inl e, w1)
      | (Inr leaflets, w1) \<Rightarrow>
          (case scrape_each caps links w1 of
             (Inl e, w2) \<Rightarrow> (Inl e, w2)
           | (Inr rest, w2) \<Rightarrow> (Inr (leaflets # rest), w2)))"

fun append_each :: "collection \<Rightarrow> (string \<times> leaflet list) list \<Rightarrow> error + collection" where
  "append_each collection [] = Inr collection"
| "append_each collection ((key, data) # calls) =
     (case append_coll collection key data of
        Inl e \<Rightarrow> Inl e
      | Inr collection1 \<Rightarrow> append_each collection1 calls)"

text \<open>
  The records that a sequence of such calls appends under one key, in the order of the
  calls.
\<close>

definition records_of :: "string \<Rightarrow> (string \<times> leaflet list) list \<Rightarrow> leaflet list" where
  "records_of key calls = concat (map snd (filter (\<lambda>call. fst call = key) calls))"

text \<open>
  The record of one listing fragment as the specification words it: the fragment has a
  thumbnail image with a source and a date description, and the record has the title
  \<^verbatim>\<open>Prospekt\<close>, that source as thumbnail, the name of the retailer, and the two strings
  the date-range parser returns on the text of the date description. The records of a
  listing page are one such record for each fragment, in document order.
\<close>

definition record_of_fragment :: "element \<Rightarrow> string \<Rightarrow> leaflet \<Rightarrow> bool" where
  "record_of_fragment element hypermarket_name leaflet =
     (case select_one element ''picture img'' of
        None \<Rightarrow> False
      | Some img \<Rightarrow>
          (case map_of (attrs img) ''src'' of
             None \<Rightarrow> False
           | Some src \<Rightarrow>
               (case select_one element DATE_SELECTOR of
                  None \<Rightarrow> False
                | Some small \<Rightarrow>
                    title leaflet = ''Prospekt'' \<and> thumbnail leaflet = src \<and>
                    shop_name leaflet = hypermarket_name \<and>
                    (valid_from leaflet, valid_to leaflet) = parser_date (elem_text small))))"

definition records_of_fragments :: "element list \<Rightarrow> string \<Rightarrow> leaflet list \<Rightarrow> bool" where
  "records_of_fragments elements hypermarket_name leaflets =
     list_all2 (\<lambda>element leaflet. record_of_fragment element hypermarket_name leaflet)
       elements leaflets"

subsection \<open>A directory with two retailers\<close>

text \<open>
  The inputs on which the theorems below are run: a directory page with the links of
  ShopA and ShopB, a listing page of ShopA with two fragments, a listing page of ShopB
  with none, a clock that always shows the same second, and a world that counts the
  readings of the clock. A request returns its own address as content, and the parser
  maps the address to the page. \<open>bad_fragment\<close> is a fragment without an image.
\<close>

definition img1 :: element where
  "img1 = Element [] [(''src'', ''/img1.jpg'')] (\<lambda>selector. [])"

definition small1 :: element where
  "small1 = Element ''Angebote 01.03 - 07.03.2024'' [] (\<lambda>selector. [])"

definition fragment1 :: element where
  "fragment1 = Element ''Angebote 01.03 - 07.03.2024'' []
     (\<lambda>selector. if selector = ''picture img'' then [img1]
                  else if selector = DATE_SELECTOR then [small1] else [])"

definition img2 :: element where
  "img2 = Element [] [(''src'', ''/img2.jpg'')] (\<lambda>selector. [])"

definition small2 :: element where
  "small2 = Element ''08.03.2024-14.03.2024'' [] (\<lambda>selector. [])"

definition fragment2 :: element where
  "fragment2 = Element ''08.03.2024-14.03.2024'' []
     (\<lambda>selector. if selector = ''picture img'' then [img2]
                  else if selector = DATE_SELECTOR then [small2] else [])"

definition link_a :: element where
  "link_a = Element '' ShopA '' [(''href'', ''/a/'')] (\<lambda>selector. [])"

definition link_b :: element where
  "link_b = Element ''ShopB'' [(''href'', ''/b/'')] (\<lambda>selector. [])"

definition scenario_parser :: "string \<Rightarrow> element" where
  "scenario_parser content =
     (if content = base_url @ ''/hypermarkte/'' then
        Element [] [] (\<lambda>selector. if selector = HYPERMARKET_LINK_SELECTOR then [link_a, link_b] else [])
      else if content = base_url @ ''/a/'' then
        Element [] []
          (\<lambda>selector. if selector = LEAFLET_ELEMENT_SELECTOR then [fragment1, fragment2] else [])
      else Element [] [] (\<lambda>selector. []))"

definition scenario :: "nat capabilities" where
  "scenario =
     \<lparr>http_client_get = (\<lambda>url w. (Inr url, w)),
      html_parser = scenario_parser,
      datetime_now = (\<lambda>w. (''2024-03-01 12:00:00'', Suc w))\<rparr>"

definition leaflet1 :: leaflet where
  "leaflet1 =
     \<lparr>title = ''Prospekt'', thumbnail = ''/img1.jpg'', shop_name = ''ShopA'',
      valid_from = ''01.03'', valid_to = ''07.03.2024'', parsed_time = ''2024-03-01 12:00:00''\<rparr>"

definition leaflet2 :: leaflet where
  "leaflet2 =
     \<lparr>title = ''Prospekt'', thumbnail = ''/img2.jpg'', shop_name = ''ShopA'',
      valid_from = ''08.03.2024'', valid_to = ''14.03.2024'',
      parsed_time = ''2024-03-01 12:00:00''\<rparr>"

definition bad_fragment :: element where
  "bad_fragment = Element ''Angebote'' []
     (\<lambda>selector. if selector = DATE_SELECTOR then [small1] else [])"

section \<open>The pattern and the ranges of a text\<close>

lemma set_re_class: "(a, r) \<in> set (re_class p s) \<longleftrightarrow> (\<exists>c. p c \<and> a = [c] \<and> s = c # r)"
  by (auto simp: re_class_def split: list.splits)

lemma set_re_lit: "(a, r) \<in> set (re_lit x s) \<longleftrightarrow> (a = [x] \<and> s = x # r)"
  by (auto simp: re_lit_def set_re_class)

lemma set_re_seq:
  "(x, r') \<in> set (re_seq m1 m2 s) \<longleftrightarrow>
     (\<exists>a b r. x = a @ b \<and> (a, r) \<in> set (m1 s) \<and> (b, r') \<in> set (m2 r))"
  by (force simp: re_seq_def)

lemma set_re_opt: "(a, r) \<in> set (re_opt m s) \<longleftrightarrow> (a, r) \<in> set (m s) \<or> (a = [] \<and> r = s)"
  by (auto simp: re_opt_def)

lemma set_re_star_class:
  "(a, r) \<in> set (re_star_class p s) \<longleftrightarrow> s = a @ r \<and> list_all p a"
proof (induction s arbitrary: a)
  case Nil
  then show ?case by auto
next
  case (Cons c cs)
  then show ?case by (cases a) auto
qed

lemma set_re_rep_class:
  "(a, r) \<in> set (re_rep n (re_class p) s) \<longleftrightarrow> s = a @ r \<and> length a = n \<and> list_all p a"
proof (induction n arbitrary: a s)
  case 0
  then show ?case by (auto simp: re_eps_def)
next
  case (Suc n)
  show ?case
    by (cases a) (auto simp: set_re_seq set_re_class Suc)
qed

lemma dd_dd_iff:
  "dd_dd g \<longleftrightarrow>
     (\<exists>a b c d. g = [a, b, CHR ''.'', c, d] \<and> is_digit a \<and> is_digit b \<and> is_digit c \<and> is_digit d)"
  by (cases g rule: dd_dd.cases) auto

lemma yyyy_iff:
  "yyyy g \<longleftrightarrow>
     (\<exists>a b c d. g = [a, b, c, d] \<and> is_digit a \<and> is_digit b \<and> is_digit c \<and> is_digit d)"
  by (cases g rule: yyyy.cases) auto

lemma dot_yyyy_iff: "dot_yyyy t \<longleftrightarrow> (\<exists>y. t = CHR ''.'' # y \<and> yyyy y)"
  by (cases t) auto

lemma dd_dd_length: "dd_dd p \<Longrightarrow> length p = 5"
  by (auto simp: dd_dd_iff)

lemma take5_drop5:
  "dd_dd (take 5 g) \<longleftrightarrow>
     (\<exists>a b c d t. g = a # b # CHR ''.'' # c # d # t \<and>
        is_digit a \<and> is_digit b \<and> is_digit c \<and> is_digit d)"
proof
  assume a: "dd_dd (take 5 g)"
  then obtain a b c d where t: "take 5 g = [a, b, CHR ''.'', c, d]"
    and d: "is_digit a" "is_digit b" "is_digit c" "is_digit d"
    by (auto simp: dd_dd_iff)
  have "g = take 5 g @ drop 5 g" by simp
  with t have "g = a # b # CHR ''.'' # c # d # drop 5 g" by simp
  with d show "\<exists>a b c d t. g = a # b # CHR ''.'' # c # d # t \<and>
        is_digit a \<and> is_digit b \<and> is_digit c \<and> is_digit d"
    by blast
next
  assume "\<exists>a b c d t. g = a # b # CHR ''.'' # c # d # t \<and>
        is_digit a \<and> is_digit b \<and> is_digit c \<and> is_digit d"
  then obtain a b c d t where "g = a # b # CHR ''.'' # c # d # t"
    "is_digit a" "is_digit b" "is_digit c" "is_digit d" by blast
  then show "dd_dd (take 5 g)" by simp
qed

lemma set_re_seq_assoc:
  "(x, r) \<in> set (re_seq (re_seq m1 m2) m3 s) \<longleftrightarrow> (x, r) \<in> set (re_seq m1 (re_seq m2 m3) s)"
proof
  assume "(x, r) \<in> set (re_seq (re_seq m1 m2) m3 s)"
  then obtain a b c r1 r2 where "x = (a @ b) @ c" "(a, r1) \<in> set (m1 s)" "(b, r2) \<in> set (m2 r1)"
    "(c, r) \<in> set (m3 r2)"
    unfolding set_re_seq by blast
  then show "(x, r) \<in> set (re_seq m1 (re_seq m2 m3) s)"
    unfolding set_re_seq append_assoc by blast
next
  assume "(x, r) \<in> set (re_seq m1 (re_seq m2 m3) s)"
  then obtain a b c r1 r2 where "x = a @ (b @ c)" "(a, r1) \<in> set (m1 s)" "(b, r2) \<in> set (m2 r1)"
    "(c, r) \<in> set (m3 r2)"
    unfolding set_re_seq by blast
  then show "(x, r) \<in> set (re_seq (re_seq m1 m2) m3 s)"
    unfolding set_re_seq append_assoc[symmetric] by blast
qed

lemma set_re_seq_eps:
  "(x, r) \<in> set (re_seq re_eps m s) \<longleftrightarrow> (x, r) \<in> set (m s)"
  by (simp add: set_re_seq re_eps_def)

lemma set_re_eps: "(x, r) \<in> set (re_eps s) \<longleftrightarrow> x = [] \<and> r = s"
  by (auto simp: re_eps_def)

lemma set_re_seq_class:
  "(x, r) \<in> set (re_seq (re_class p) m s) \<longleftrightarrow>
     (\<exists>c cs t. s = c # cs \<and> p c \<and> x = c # t \<and> (t, r) \<in> set (m cs))"
  by (auto simp: set_re_seq set_re_class)

lemma set_re_seq_lit:
  "(x, r) \<in> set (re_seq (re_lit c) m s) \<longleftrightarrow>
     (\<exists>cs t. s = c # cs \<and> x = c # t \<and> (t, r) \<in> set (m cs))"
  by (auto simp: set_re_seq set_re_lit)

lemma set_re_seq_opt_lit:
  "(x, r) \<in> set (re_seq (re_opt (re_lit c)) m s) \<longleftrightarrow>
     (\<exists>cs t. s = c # cs \<and> x = c # t \<and> (t, r) \<in> set (m cs)) \<or> (x, r) \<in> set (m s)"
proof -
  have "(x, r) \<in> set (re_seq (re_opt (re_lit c)) m s) \<longleftrightarrow>
          (x, r) \<in> set (re_seq (re_lit c) m s) \<or> (x, r) \<in> set (m s)"
    by (auto simp: re_seq_def re_opt_def)
  then show ?thesis by (simp add: set_re_seq_lit)
qed

lemmas set_re_simps =
  re_rep.simps set_re_seq_assoc set_re_seq_eps set_re_eps set_re_seq_class set_re_seq_lit
  set_re_seq_opt_lit set_re_opt eval_nat_numeral

lemma set_group1_sound:
  assumes "(g, r) \<in> set (group1 s)"
  shows "s = g @ r \<and> start_token g"
  using assms unfolding group1_def
  by (auto simp: set_re_simps start_token_def)

lemma set_group1_complete:
  assumes "start_token g"
  shows "(g, r) \<in> set (group1 (g @ r))"
proof -
  from assms obtain a b c d t where g: "g = a # b # CHR ''.'' # c # d # t"
    and d: "is_digit a" "is_digit b" "is_digit c" "is_digit d"
    unfolding start_token_def take5_drop5 by auto
  from assms have "t = [] \<or> t = ''.'' \<or> yyyy t \<or> dot_yyyy t"
    unfolding start_token_def g by simp
  then show ?thesis
    unfolding group1_def g yyyy_iff dot_yyyy_iff using d
    by (auto simp: set_re_simps)
qed

lemma set_group1: "(g, r) \<in> set (group1 s) \<longleftrightarrow> s = g @ r \<and> start_token g"
  using set_group1_sound set_group1_complete by blast

lemma set_group2_sound:
  assumes "(g, r) \<in> set (group2 s)"
  shows "s = g @ r \<and> end_token g"
  using assms unfolding group2_def
  by (auto simp: set_re_simps end_token_def)

lemma set_group2_complete:
  assumes "end_token g"
  shows "(g, r) \<in> set (group2 (g @ r))"
proof -
  from assms obtain a b c d t where g: "g = a # b # CHR ''.'' # c # d # t"
    and d: "is_digit a" "is_digit b" "is_digit c" "is_digit d"
    unfolding end_token_def take5_drop5 by auto
  from assms have "dot_yyyy t"
    unfolding end_token_def g by simp
  then show ?thesis
    unfolding group2_def g yyyy_iff dot_yyyy_iff using d
    by (auto simp: set_re_simps)
qed

lemma set_group2: "(g, r) \<in> set (group2 s) \<longleftrightarrow> s = g @ r \<and> end_token g"
  using set_group2_sound set_group2_complete by blast

lemma set_separator:
  "(w, r) \<in> set (separator s) \<longleftrightarrow>
     (\<exists>w1 w2. w = w1 @ ''-'' @ w2 \<and> s = w @ r \<and> list_all is_space w1 \<and> list_all is_space w2)"
proof
  assume "(w, r) \<in> set (separator s)"
  then obtain a b r1 b1 b2 r2 where "w = a @ b" "(a, r1) \<in> set (re_star_class is_space s)"
    "b = b1 @ b2" "(b1, r2) \<in> set (re_lit CHR ''-'' r1)" "(b2, r) \<in> set (re_star_class is_space r2)"
    unfolding separator_def set_re_seq by blast
  then have "w = a @ ''-'' @ b2 \<and> s = w @ r \<and> list_all is_space a \<and> list_all is_space b2"
    by (simp add: set_re_star_class set_re_lit)
  then show "\<exists>w1 w2. w = w1 @ ''-'' @ w2 \<and> s = w @ r \<and> list_all is_space w1 \<and> list_all is_space w2"
    by blast
next
  assume "\<exists>w1 w2. w = w1 @ ''-'' @ w2 \<and> s = w @ r \<and> list_all is_space w1 \<and> list_all is_space w2"
  then obtain w1 w2 where w: "w = w1 @ ''-'' @ w2" "s = w @ r" "list_all is_space w1" "list_all is_space w2"
    by blast
  have 1: "(w1, ''-'' @ w2 @ r) \<in> set (re_star_class is_space s)"
    using w by (simp add: set_re_star_class)
  have 2: "(''-'', w2 @ r) \<in> set (re_lit CHR ''-'' (''-'' @ w2 @ r))"
    by (simp add: set_re_lit)
  have 3: "(w2, r) \<in> set (re_star_class is_space (w2 @ r))"
    using w by (simp add: set_re_star_class)
  have "(''-'' @ w2, r) \<in> set (re_seq (re_lit CHR ''-'') (re_star_class is_space) (''-'' @ w2 @ r))"
    unfolding set_re_seq using 2 3 by blast
  with 1 have "(w1 @ ''-'' @ w2, r) \<in> set (separator s)"
    unfolding separator_def set_re_seq[of _ _ "re_star_class is_space"] by blast
  then show "(w, r) \<in> set (separator s)" using w by simp
qed

lemma set_pattern_raw:
  "(x, r3) \<in> set (pattern s) \<longleftrightarrow>
     (\<exists>g1 r1 w r2 g2. x = (g1, g2) \<and> (g1, r1) \<in> set (group1 s) \<and>
        (w, r2) \<in> set (separator r1) \<and> (g2, r3) \<in> set (group2 r2))"
  unfolding pattern_def by force

lemma set_pattern:
  "((g1, g2), r) \<in> set (pattern s) \<longleftrightarrow>
     (\<exists>w1 w2. s = range_text g1 w1 w2 g2 @ r \<and> is_range g1 w1 w2 g2)"
proof
  assume "((g1, g2), r) \<in> set (pattern s)"
  then obtain r1 w r2 where "(g1, r1) \<in> set (group1 s)" "(w, r2) \<in> set (separator r1)"
    "(g2, r) \<in> set (group2 r2)"
    unfolding set_pattern_raw by blast
  then obtain w1 w2 where "s = g1 @ r1" "start_token g1" "r1 = w @ r2" "w = w1 @ ''-'' @ w2"
    "list_all is_space w1" "list_all is_space w2" "r2 = g2 @ r" "end_token g2"
    unfolding set_group1 set_group2 set_separator by blast
  then have "s = range_text g1 w1 w2 g2 @ r \<and> is_range g1 w1 w2 g2"
    by (simp add: range_text_def is_range_def)
  then show "\<exists>w1 w2. s = range_text g1 w1 w2 g2 @ r \<and> is_range g1 w1 w2 g2" by blast
next
  assume "\<exists>w1 w2. s = range_text g1 w1 w2 g2 @ r \<and> is_range g1 w1 w2 g2"
  then obtain w1 w2 where s: "s = g1 @ (w1 @ ''-'' @ w2) @ g2 @ r"
    and r: "start_token g1" "list_all is_space w1" "list_all is_space w2" "end_token g2"
    by (auto simp: range_text_def is_range_def)
  have 1: "(g1, (w1 @ ''-'' @ w2) @ g2 @ r) \<in> set (group1 s)"
    unfolding s using r(1) by (rule set_group1_complete)
  have 2: "(w1 @ ''-'' @ w2, g2 @ r) \<in> set (separator ((w1 @ ''-'' @ w2) @ g2 @ r))"
    unfolding set_separator using r(2,3) by blast
  have 3: "(g2, r) \<in> set (group2 (g2 @ r))"
    using r(4) by (rule set_group2_complete)
  from 1 2 3 show "((g1, g2), r) \<in> set (pattern s)"
    unfolding set_pattern_raw by blast
qed

lemma class_facts:
  "\<not> is_space CHR ''-''" "\<not> is_space CHR ''.''" "\<not> is_digit CHR ''-''" "\<not> is_digit CHR ''.''"
  by (simp_all add: is_space_def is_digit_def)

lemma digit_not_space: "is_digit c \<Longrightarrow> \<not> is_space c"
  by (auto simp: is_space_def is_digit_def)

lemma takeWhile_spaces:
  "list_all is_space w \<Longrightarrow> \<not> is_space x \<Longrightarrow> takeWhile is_space (w @ x # z) = w"
  by (simp add: takeWhile_append2 list_all_iff)

lemma spaces_unique:
  assumes "w @ x # z = w' @ x' # z'" "list_all is_space w" "list_all is_space w'"
    "\<not> is_space x" "\<not> is_space x'"
  shows "w = w' \<and> x # z = x' # z'"
proof -
  have "takeWhile is_space (w @ x # z) = takeWhile is_space (w' @ x' # z')"
    using assms(1) by simp
  then have "w = w'" using assms(2-5) by (simp add: takeWhile_spaces)
  with assms(1) show ?thesis by simp
qed

lemma end_token_shape:
  assumes "end_token g"
  shows "length g = 10 \<and> (\<exists>c t. g = c # t \<and> is_digit c)"
  using assms unfolding end_token_def take5_drop5
  by (auto simp: dot_yyyy_iff yyyy_iff)

lemma separator_head:
  assumes "list_all is_space w"
  shows "\<exists>c z. w @ ''-'' @ y = c # z \<and> \<not> is_digit c \<and> c \<noteq> CHR ''.''"
proof (cases w)
  case Nil
  then show ?thesis by (simp add: class_facts)
next
  case (Cons c cs)
  with assms have "is_space c" by simp
  then have "\<not> is_digit c \<and> c \<noteq> CHR ''.''"
    using digit_not_space class_facts by blast
  with Cons show ?thesis by simp
qed

lemma tail_unique:
  assumes "t @ y = t' @ y'"
    and "t = [] \<or> t = ''.'' \<or> yyyy t \<or> dot_yyyy t"
    and "t' = [] \<or> t' = ''.'' \<or> yyyy t' \<or> dot_yyyy t'"
    and "\<exists>c z. y = c # z \<and> \<not> is_digit c \<and> c \<noteq> CHR ''.''"
    and "\<exists>c z. y' = c # z \<and> \<not> is_digit c \<and> c \<noteq> CHR ''.''"
  shows "t = t'"
  using assms unfolding yyyy_iff dot_yyyy_iff
  by (elim disjE exE conjE; hypsubst_thin; simp add: class_facts; blast?)

lemma start_token_unique:
  assumes "g @ w @ ''-'' @ y = g' @ w' @ ''-'' @ y'"
    and "start_token g" "start_token g'" "list_all is_space w" "list_all is_space w'"
  shows "g = g'"
proof -
  from assms(2) obtain a b c d t where g: "g = a # b # CHR ''.'' # c # d # t"
    and t: "t = [] \<or> t = ''.'' \<or> yyyy t \<or> dot_yyyy t"
    unfolding start_token_def take5_drop5 by auto
  from assms(3) obtain a' b' c' d' t' where g': "g' = a' # b' # CHR ''.'' # c' # d' # t'"
    and t': "t' = [] \<or> t' = ''.'' \<or> yyyy t' \<or> dot_yyyy t'"
    unfolding start_token_def take5_drop5 by auto
  from assms(1) have pre: "a = a'" "b = b'" "c = c'" "d = d'"
    and rest: "t @ (w @ ''-'' @ y) = t' @ (w' @ ''-'' @ y')"
    unfolding g g' by simp_all
  have "t = t'"
    using rest t t' separator_head[OF assms(4)] separator_head[OF assms(5)]
    by (rule tail_unique)
  with pre show ?thesis unfolding g g' by simp
qed

lemma range_unique:
  assumes eq: "range_text g1 w1 w2 g2 @ r = range_text g1' w1' w2' g2' @ r'"
    and r: "is_range g1 w1 w2 g2" and r': "is_range g1' w1' w2' g2'"
  shows "g1 = g1' \<and> g2 = g2' \<and> r = r'"
proof -
  from eq have e1: "g1 @ w1 @ ''-'' @ (w2 @ g2 @ r) = g1' @ w1' @ ''-'' @ (w2' @ g2' @ r')"
    by (simp add: range_text_def)
  from r r' have g: "g1 = g1'"
    using start_token_unique[OF e1] by (simp add: is_range_def)
  with e1 have e2: "w1 @ CHR ''-'' # (w2 @ g2 @ r) = w1' @ CHR ''-'' # (w2' @ g2' @ r')"
    by simp
  from r r' have e3: "w2 @ g2 @ r = w2' @ g2' @ r'"
    using spaces_unique[OF e2] by (simp add: is_range_def class_facts)
  from r have "end_token g2" by (simp add: is_range_def)
  from end_token_shape[OF this] obtain c t where g2: "g2 = c # t" "is_digit c" "length g2 = 10"
    by blast
  from r' have "end_token g2'" by (simp add: is_range_def)
  from end_token_shape[OF this] obtain c' t' where g2': "g2' = c' # t'" "is_digit c'" "length g2' = 10"
    by blast
  from e3 have e4: "w2 @ c # (t @ r) = w2' @ c' # (t' @ r')"
    unfolding g2 g2' by simp
  from r r' g2 g2' have "c # (t @ r) = c' # (t' @ r')"
    using spaces_unique[OF e4] by (simp add: is_range_def digit_not_space)
  then have "g2 @ r = g2' @ r'" unfolding g2 g2' by simp
  with g2(3) g2'(3) have "g2 = g2' \<and> r = r'" by simp
  with g show ?thesis by simp
qed

lemma pattern_eq_Nil:
  "pattern t = [] \<longleftrightarrow> \<not> (\<exists>g1 w1 w2 g2 r. t = range_text g1 w1 w2 g2 @ r \<and> is_range g1 w1 w2 g2)"
proof -
  have "pattern t = [] \<longleftrightarrow> (\<forall>g1 g2 r. ((g1, g2), r) \<notin> set (pattern t))"
    by (cases "pattern t") auto
  then show ?thesis unfolding set_pattern by blast
qed

lemma pattern_first:
  assumes "pattern (range_text g1 w1 w2 g2 @ r) = x # xs" "is_range g1 w1 w2 g2"
  shows "x = ((g1, g2), r)"
proof -
  obtain h1 h2 r' where x: "x = ((h1, h2), r')" by (cases x) auto
  with assms(1) have "((h1, h2), r') \<in> set (pattern (range_text g1 w1 w2 g2 @ r))" by simp
  then obtain v1 v2 where "range_text g1 w1 w2 g2 @ r = range_text h1 v1 v2 h2 @ r'"
    "is_range h1 v1 v2 h2"
    unfolding set_pattern by blast
  with assms(2) have "g1 = h1 \<and> g2 = h2 \<and> r = r'" using range_unique by blast
  with x show ?thesis by simp
qed

lemma search_None: "search s = None \<Longrightarrow> pattern (drop k s) = []"
proof (induction s arbitrary: k rule: search.induct)
  case (1 s)
  from "1.prems" have p: "pattern s = []"
    by (cases "pattern s") (auto split: list.splits)
  show ?case
  proof (cases s)
    case Nil
    with p show ?thesis by simp
  next
    case (Cons c cs)
    with "1.prems" p have n: "search cs = None" by simp
    show ?thesis
    proof (cases k)
      case 0
      with p show ?thesis by simp
    next
      case (Suc j)
      have "pattern (drop j cs) = []" using "1.IH"[OF p Cons n] .
      with Cons Suc show ?thesis by simp
    qed
  qed
qed

lemma search_Some:
  "search s = Some (g1, g2) \<Longrightarrow>
     \<exists>pre w1 w2 post. s = pre @ range_text g1 w1 w2 g2 @ post \<and> is_range g1 w1 w2 g2 \<and>
        (\<forall>k<length pre. pattern (drop k s) = [])"
proof (induction s rule: search.induct)
  case (1 s)
  show ?case
  proof (cases "pattern s")
    case Nil
    show ?thesis
    proof (cases s)
      case Nil
      with \<open>pattern s = []\<close> "1.prems" show ?thesis by simp
    next
      case (Cons c cs)
      with \<open>pattern s = []\<close> "1.prems" have "search cs = Some (g1, g2)" by simp
      from "1.IH"[OF \<open>pattern s = []\<close> Cons this]
      obtain pre w1 w2 post where cs: "cs = pre @ range_text g1 w1 w2 g2 @ post"
        and r: "is_range g1 w1 w2 g2" and l: "\<forall>k<length pre. pattern (drop k cs) = []"
        by blast
      have "\<forall>k<length (c # pre). pattern (drop k s) = []"
      proof (intro allI impI)
        fix k assume k: "k < length (c # pre)"
        show "pattern (drop k s) = []"
        proof (cases k)
          case 0
          with \<open>pattern s = []\<close> show ?thesis by simp
        next
          case (Suc j)
          with k l Cons show ?thesis by simp
        qed
      qed
      moreover have "s = (c # pre) @ range_text g1 w1 w2 g2 @ post"
        using Cons cs by simp
      ultimately show ?thesis using r by blast
    qed
  next
    case (Cons x xs)
    obtain h r where x: "x = (h, r)" by (cases x) auto
    with Cons "1.prems" have h: "h = (g1, g2)" by simp
    with Cons x have "((g1, g2), r) \<in> set (pattern s)" by simp
    then obtain w1 w2 where "s = [] @ range_text g1 w1 w2 g2 @ r" "is_range g1 w1 w2 g2"
      unfolding set_pattern by auto
    moreover have "\<forall>k<length ([]::string). pattern (drop k s) = []" by simp
    ultimately show ?thesis by blast
  qed
qed

lemma search_range:
  assumes s: "s = pre @ range_text g1 w1 w2 g2 @ post" and r: "is_range g1 w1 w2 g2"
  shows "\<exists>pre' h1 v1 v2 h2 post'. search s = Some (h1, h2) \<and>
           s = pre' @ range_text h1 v1 v2 h2 @ post' \<and> is_range h1 v1 v2 h2 \<and>
           length pre' \<le> length pre \<and> (length pre' = length pre \<longrightarrow> h1 = g1 \<and> h2 = g2)"
proof -
  have here: "pattern (drop (length pre) s) \<noteq> []"
    unfolding pattern_eq_Nil s using r by simp blast
  then have "search s \<noteq> None" using search_None by blast
  then obtain h1 h2 where f: "search s = Some (h1, h2)" by (cases "search s") auto
  from search_Some[OF f] obtain pre' v1 v2 post'
    where s': "s = pre' @ range_text h1 v1 v2 h2 @ post'" and r': "is_range h1 v1 v2 h2"
      and l: "\<forall>k<length pre'. pattern (drop k s) = []"
    by blast
  from l here have le: "length pre' \<le> length pre" by (meson not_le_imp_less)
  have "h1 = g1 \<and> h2 = g2" if "length pre' = length pre"
  proof -
    from s s' have "pre @ (range_text g1 w1 w2 g2 @ post) = pre' @ (range_text h1 v1 v2 h2 @ post')"
      by simp
    with that have "range_text g1 w1 w2 g2 @ post = range_text h1 v1 v2 h2 @ post'"
      by simp
    with r r' show ?thesis using range_unique by blast
  qed
  with f s' r' le show ?thesis by blast
qed

lemma parser_date_search:
  "parser_date dates = (case search dates of None \<Rightarrow> ([], []) | Some g \<Rightarrow> g)"
  by (simp add: parser_date_def split: option.splits)

lemma start_token_nonempty: "start_token g \<Longrightarrow> g \<noteq> []"
  unfolding start_token_def take5_drop5 by auto

lemma end_token_nonempty: "end_token g \<Longrightarrow> g \<noteq> []"
  unfolding end_token_def take5_drop5 by auto

lemma spec_start_token_start: "spec_start_token g \<Longrightarrow> start_token g"
  by (auto simp: spec_start_token_def start_token_def)

lemma parser_date_range:
  assumes "dates = pre @ range_text start w1 w2 end @ post" and "is_range start w1 w2 end"
  shows "\<exists>pre' start' w1' w2' end' post'.
           parser_date dates = (start', end') \<and>
           dates = pre' @ range_text start' w1' w2' end' @ post' \<and>
           is_range start' w1' w2' end' \<and> length pre' \<le> length pre \<and>
           (length pre' = length pre \<longrightarrow> start' = start \<and> end' = end)"
proof -
  from search_range[OF assms] obtain pre' h1 v1 v2 h2 post' where
    f: "search dates = Some (h1, h2)" and
    r: "dates = pre' @ range_text h1 v1 v2 h2 @ post' \<and> is_range h1 v1 v2 h2 \<and>
        length pre' \<le> length pre \<and> (length pre' = length pre \<longrightarrow> h1 = start \<and> h2 = end)"
    by blast
  from f have "parser_date dates = (h1, h2)" by (simp add: parser_date_def)
  with r show ?thesis by blast
qed

lemma parser_date_found:
  assumes "parser_date dates = (s, e)" and "s \<noteq> [] \<or> e \<noteq> []"
  shows "\<exists>p v1 v2 q. dates = p @ range_text s v1 v2 e @ q \<and> is_range s v1 v2 e \<and>
           (\<forall>k<length p. pattern (drop k dates) = [])"
proof -
  from assms have "search dates = Some (s, e)"
    by (cases "search dates") (auto simp: parser_date_def)
  from search_Some[OF this] show ?thesis .
qed

lemma range_pattern:
  assumes "dates = p @ range_text s v1 v2 e @ q" and "is_range s v1 v2 e"
  shows "pattern (drop (length p) dates) \<noteq> []"
  unfolding pattern_eq_Nil using assms by simp blast

section \<open>The date-range parser: the claims\<close>

text \<open>
  C1. A text that contains a date range \<^verbatim>\<open>DD.DD-DD.DD.YYYY\<close> or
  \<^verbatim>\<open>DD.DD.YYYY-DD.DD.YYYY\<close>, white space allowed on both sides of the hyphen, is parsed to
  two substrings of the text, unchanged: the start and the end token of a date range of
  the pattern, whose start token may also be \<^verbatim>\<open>DD.DD.\<close> or \<^verbatim>\<open>DD.DDYYYY\<close>, that begins
  at or before the given one. When no date range of the pattern begins before the given
  one, the result is exactly the two tokens of the given range: a start token without a
  year stays without one.
\<close>

theorem parser_date_verbatim:
  assumes "dates = pre @ range_text start w1 w2 end @ post"
    and "spec_start_token start" and "list_all is_space w1" and "list_all is_space w2"
    and "end_token end"
  shows "(\<exists>pre' start' w1' w2' end' post'.
            parser_date dates = (start', end') \<and>
            dates = pre' @ range_text start' w1' w2' end' @ post' \<and>
            is_range start' w1' w2' end' \<and> length pre' \<le> length pre \<and>
            (length pre' = length pre \<longrightarrow> start' = start \<and> end' = end)) \<and>
         ((\<forall>p s u1 u2 e q. dates = p @ range_text s u1 u2 e @ q \<and> is_range s u1 u2 e
              \<longrightarrow> length pre \<le> length p)
            \<longrightarrow> parser_date dates = (start, end))"
proof -
  from assms(2-5) have "is_range start w1 w2 end"
    by (simp add: is_range_def spec_start_token_start)
  with assms(1) have ex: "\<exists>pre' start' w1' w2' end' post'.
            parser_date dates = (start', end') \<and>
            dates = pre' @ range_text start' w1' w2' end' @ post' \<and>
            is_range start' w1' w2' end' \<and> length pre' \<le> length pre \<and>
            (length pre' = length pre \<longrightarrow> start' = start \<and> end' = end)"
    by (rule parser_date_range)
  have "parser_date dates = (start, end)"
    if l: "\<forall>p s u1 u2 e q. dates = p @ range_text s u1 u2 e @ q \<and> is_range s u1 u2 e
              \<longrightarrow> length pre \<le> length p"
  proof -
    from ex obtain pre' start' w1' w2' end' post' where
      r: "parser_date dates = (start', end')"
         "dates = pre' @ range_text start' w1' w2' end' @ post'"
         "is_range start' w1' w2' end'" "length pre' \<le> length pre"
         "length pre' = length pre \<longrightarrow> start' = start \<and> end' = end"
      by blast
    from l r(2,3) have "length pre \<le> length pre'" by blast
    with r(1,4,5) show ?thesis by simp
  qed
  with ex show ?thesis by blast
qed

theorem parser_date_verbatim_witness:
  "spec_start_token ''01.03'' \<and> list_all is_space '' '' \<and> end_token ''07.03.2024'' \<and>
   (\<exists>pre' start' w1' w2' end' post'.
      parser_date ''Angebote 01.03 - 07.03.2024'' = (start', end') \<and>
      ''Angebote 01.03 - 07.03.2024'' = pre' @ range_text start' w1' w2' end' @ post' \<and>
      is_range start' w1' w2' end' \<and> length pre' \<le> length ''Angebote '') \<and>
   parser_date ''Angebote 01.03 - 07.03.2024'' = (''01.03'', ''07.03.2024'')"
proof -
  let ?d = "''Angebote 01.03 - 07.03.2024''"
  have d: "?d = ''Angebote '' @ range_text ''01.03'' '' '' '' '' ''07.03.2024'' @ []"
    by (simp add: range_text_def)
  have s: "spec_start_token ''01.03''"
    by (simp add: spec_start_token_def is_digit_def)
  have w: "list_all is_space '' ''"
    by (simp add: is_space_def)
  have e: "end_token ''07.03.2024''"
    by (simp add: end_token_def is_digit_def)
  have n: "\<forall>k\<in>set [0..<9]. pattern (drop k ?d) = []"
    by code_simp
  have l: "\<forall>p s u1 u2 e q. ?d = p @ range_text s u1 u2 e @ q \<and> is_range s u1 u2 e
             \<longrightarrow> length ''Angebote '' \<le> length p"
  proof (intro allI impI)
    fix p s u1 u2 e' q
    assume a: "?d = p @ range_text s u1 u2 e' @ q \<and> is_range s u1 u2 e'"
    then have ne: "pattern (drop (length p) ?d) \<noteq> []"
      using range_pattern by blast
    show "length ''Angebote '' \<le> length p"
    proof (rule ccontr)
      assume "\<not> length ''Angebote '' \<le> length p"
      then have "length p \<in> set [0..<9]" by simp
      with n ne show False by blast
    qed
  qed
  note t = parser_date_verbatim[OF d s w w e]
  from t l have v: "parser_date ?d = (''01.03'', ''07.03.2024'')" by blast
  from t s w e v show ?thesis by blast
qed

text \<open>
  A text that contains a range of the two shapes after a range whose start token ends
  with a dot: the parser returns the tokens of the earlier range, and its start token has
  neither of the two shapes.
\<close>

theorem parser_date_verbatim_counterexample:
  "''01.03. - 07.03.2024 08.03 - 14.03.2024'' =
     ''01.03. - 07.03.2024 '' @ range_text ''08.03'' '' '' '' '' ''14.03.2024'' @ [] \<and>
   spec_start_token ''08.03'' \<and> list_all is_space '' '' \<and> end_token ''14.03.2024'' \<and>
   parser_date ''01.03. - 07.03.2024 08.03 - 14.03.2024'' = (''01.03.'', ''07.03.2024'') \<and>
   \<not> spec_start_token ''01.03.'' \<and>
   parser_date ''01.03. - 07.03.2024 08.03 - 14.03.2024'' \<noteq> (''08.03'', ''14.03.2024'')"
proof -
  have d: "''01.03. - 07.03.2024 08.03 - 14.03.2024'' =
     ''01.03. - 07.03.2024 '' @ range_text ''08.03'' '' '' '' '' ''14.03.2024'' @ []"
    by (simp add: range_text_def)
  have s: "spec_start_token ''08.03''"
    by (simp add: spec_start_token_def is_digit_def)
  have w: "list_all is_space '' ''"
    by (simp add: is_space_def)
  have e: "end_token ''14.03.2024''"
    by (simp add: end_token_def is_digit_def)
  have v: "parser_date ''01.03. - 07.03.2024 08.03 - 14.03.2024'' = (''01.03.'', ''07.03.2024'')"
    by code_simp
  have n: "\<not> spec_start_token ''01.03.''"
    by (simp add: spec_start_token_def)
  have m: "parser_date ''01.03. - 07.03.2024 08.03 - 14.03.2024'' \<noteq> (''08.03'', ''14.03.2024'')"
    unfolding v by simp
  from d s w e v n m show ?thesis by blast
qed

text \<open>
  C2. The start token the pattern accepts is \<^verbatim>\<open>DD.DD\<close>, then a dot or nothing, then
  \<^verbatim>\<open>YYYY\<close> or nothing, the two choices made independently (\<^verbatim>\<open>DD.DD\<close>, \<^verbatim>\<open>DD.DD.\<close>,
  \<^verbatim>\<open>DD.DDYYYY\<close>, \<^verbatim>\<open>DD.DD.YYYY\<close>); the end token is \<^verbatim>\<open>DD.DD.YYYY\<close>; they are joined by
  a hyphen with optional white space on both sides. Every text that contains such a range
  is matched, and the two strings of every match are the tokens of such a range in the
  text.
\<close>

theorem parser_date_token_shapes:
  "(is_range start w1 w2 end \<longrightarrow>
      parser_date (pre @ range_text start w1 w2 end @ post) \<noteq> ('''', '''')) \<and>
   (parser_date dates = (s, e) \<and> (s, e) \<noteq> ('''', '''') \<longrightarrow>
      (\<exists>p v1 v2 q. dates = p @ range_text s v1 v2 e @ q \<and> is_range s v1 v2 e))"
proof (intro conjI impI)
  assume r: "is_range start w1 w2 end"
  from parser_date_range[OF refl r, of pre post] obtain s' e' v1 v2 where
    "parser_date (pre @ range_text start w1 w2 end @ post) = (s', e')" "is_range s' v1 v2 e'"
    by blast
  then show "parser_date (pre @ range_text start w1 w2 end @ post) \<noteq> ('''', '''')"
    using start_token_nonempty by (auto simp: is_range_def)
next
  assume "parser_date dates = (s, e) \<and> (s, e) \<noteq> ('''', '''')"
  then have "parser_date dates = (s, e)" "s \<noteq> [] \<or> e \<noteq> []" by auto
  from parser_date_found[OF this]
  show "\<exists>p v1 v2 q. dates = p @ range_text s v1 v2 e @ q \<and> is_range s v1 v2 e" by blast
qed

theorem parser_date_token_shapes_witness:
  "is_range ''01.032024'' [] '' '' ''07.03.2024'' \<and>
   parser_date (''ab '' @ range_text ''01.032024'' [] '' '' ''07.03.2024'' @ ''!'') \<noteq> ('''', '''') \<and>
   parser_date ''01.03. - 07.03.2024'' = (''01.03.'', ''07.03.2024'') \<and>
   (\<exists>p v1 v2 q. ''01.03. - 07.03.2024'' = p @ range_text ''01.03.'' v1 v2 ''07.03.2024'' @ q \<and>
      is_range ''01.03.'' v1 v2 ''07.03.2024'')"
proof -
  have r: "is_range ''01.032024'' [] '' '' ''07.03.2024''"
    by (simp add: is_range_def start_token_def end_token_def is_digit_def is_space_def)
  have v: "parser_date ''01.03. - 07.03.2024'' = (''01.03.'', ''07.03.2024'')"
    by code_simp
  have n: "(''01.03.'', ''07.03.2024'') \<noteq> ('''', '''')" by simp
  from parser_date_token_shapes[of "''01.032024''" "[]" "'' ''" "''07.03.2024''" "''ab ''" "''!''"
      "''01.03. - 07.03.2024''" "''01.03.''" "''07.03.2024''"] r v n
  show ?thesis by blast
qed

text \<open>
  A start token with a dot and no year is matched, and it is not a start token as the
  specification words it.
\<close>

theorem start_token_counterexample:
  "parser_date ''01.03. - 07.03.2024'' = (''01.03.'', ''07.03.2024'') \<and>
   \<not> spec_start_token ''01.03.''"
proof
  show "parser_date ''01.03. - 07.03.2024'' = (''01.03.'', ''07.03.2024'')"
    by code_simp
  show "\<not> spec_start_token ''01.03.''"
    by (simp add: spec_start_token_def)
qed

text \<open>
  C3. A text in which the pattern matches nowhere, that is, a text that contains no date
  range, is parsed to two empty strings. The parser is a total function: there is no
  input on which it raises.
\<close>

theorem parser_date_no_match:
  assumes "\<not> (\<exists>pre start w1 w2 end post.
              dates = pre @ range_text start w1 w2 end @ post \<and> is_range start w1 w2 end)"
  shows "parser_date dates = ('''', '''')"
proof (rule ccontr)
  assume n: "parser_date dates \<noteq> ('''', '''')"
  obtain s e where p: "parser_date dates = (s, e)" by (cases "parser_date dates") auto
  with n have "s \<noteq> [] \<or> e \<noteq> []" by auto
  from parser_date_found[OF p this] assms show False by blast
qed

theorem parser_date_no_match_witness:
  "CHR ''-'' \<notin> set (''Angebote g'' @ [CHR 0xFC] @ ''ltig'') \<and>
   parser_date (''Angebote g'' @ [CHR 0xFC] @ ''ltig'') = ('''', '''')"
proof -
  have m: "CHR ''-'' \<notin> set (''Angebote g'' @ [CHR 0xFC] @ ''ltig'')"
    by simp
  have h: "\<not> (\<exists>pre start w1 w2 end post.
        ''Angebote g'' @ [CHR 0xFC] @ ''ltig'' = pre @ range_text start w1 w2 end @ post \<and>
        is_range start w1 w2 end)"
  proof
    assume "\<exists>pre start w1 w2 end post.
        ''Angebote g'' @ [CHR 0xFC] @ ''ltig'' = pre @ range_text start w1 w2 end @ post \<and>
        is_range start w1 w2 end"
    then obtain pre start w1 w2 "end" post where
      "''Angebote g'' @ [CHR 0xFC] @ ''ltig'' = pre @ range_text start w1 w2 end @ post" by blast
    then have "CHR ''-'' \<in> set (''Angebote g'' @ [CHR 0xFC] @ ''ltig'')"
      by (simp add: range_text_def)
    with m show False by blast
  qed
  from parser_date_no_match[OF h] m show ?thesis by blast
qed

text \<open>
  C4. Of a text with two date ranges the parser returns the tokens of the first: when no
  date range of the text begins before the first of the two, the result is that range,
  whatever follows it. The search returns at most one match.
\<close>

theorem parser_date_leftmost:
  assumes "dates = pre @ range_text s1 w1 w2 e1 @ mid @ range_text s2 v1 v2 e2 @ post"
    and "is_range s1 w1 w2 e1" and "is_range s2 v1 v2 e2"
    and "\<forall>p s u1 u2 e q. dates = p @ range_text s u1 u2 e @ q \<and> is_range s u1 u2 e
           \<longrightarrow> length pre \<le> length p"
  shows "parser_date dates = (s1, e1)"
proof -
  from parser_date_range[OF assms(1,2)] obtain pre' start' w1' w2' end' post' where
    r: "parser_date dates = (start', end')"
       "dates = pre' @ range_text start' w1' w2' end' @ post'"
       "is_range start' w1' w2' end'" "length pre' \<le> length pre"
       "length pre' = length pre \<longrightarrow> start' = s1 \<and> end' = e1"
    by blast
  from assms(4) r(2,3) have "length pre \<le> length pre'" by blast
  with r(1,4,5) show ?thesis by simp
qed

theorem parser_date_leftmost_witness:
  "is_range ''01.03'' '' '' '' '' ''07.03.2024'' \<and>
   is_range ''08.03.2024'' [] [] ''14.03.2024'' \<and>
   pattern ''vom 01.03 - 07.03.2024, dann 08.03.2024-14.03.2024'' = [] \<and>
   pattern ''om 01.03 - 07.03.2024, dann 08.03.2024-14.03.2024'' = [] \<and>
   pattern ''m 01.03 - 07.03.2024, dann 08.03.2024-14.03.2024'' = [] \<and>
   pattern '' 01.03 - 07.03.2024, dann 08.03.2024-14.03.2024'' = [] \<and>
   parser_date ''vom 01.03 - 07.03.2024, dann 08.03.2024-14.03.2024'' = (''01.03'', ''07.03.2024'')"
proof -
  let ?d = "''vom 01.03 - 07.03.2024, dann 08.03.2024-14.03.2024''"
  have d: "?d = ''vom '' @ range_text ''01.03'' '' '' '' '' ''07.03.2024'' @ '', dann '' @
             range_text ''08.03.2024'' [] [] ''14.03.2024'' @ []"
    by (simp add: range_text_def)
  have r1: "is_range ''01.03'' '' '' '' '' ''07.03.2024''"
    by (simp add: is_range_def start_token_def end_token_def is_digit_def is_space_def)
  have r2: "is_range ''08.03.2024'' [] [] ''14.03.2024''"
    by (simp add: is_range_def start_token_def end_token_def is_digit_def is_space_def)
  have e0: "pattern ''vom 01.03 - 07.03.2024, dann 08.03.2024-14.03.2024'' = []"
    by code_simp
  have e1: "pattern ''om 01.03 - 07.03.2024, dann 08.03.2024-14.03.2024'' = []"
    by code_simp
  have e2: "pattern ''m 01.03 - 07.03.2024, dann 08.03.2024-14.03.2024'' = []"
    by code_simp
  have e3: "pattern '' 01.03 - 07.03.2024, dann 08.03.2024-14.03.2024'' = []"
    by code_simp
  have e: "pattern (drop 0 ?d) = []" "pattern (drop 1 ?d) = []" "pattern (drop 2 ?d) = []"
    "pattern (drop 3 ?d) = []"
    using e0 e1 e2 e3 by (simp_all add: eval_nat_numeral)
  have l: "\<forall>p s u1 u2 e q. ?d = p @ range_text s u1 u2 e @ q \<and> is_range s u1 u2 e
             \<longrightarrow> length ''vom '' \<le> length p"
  proof (intro allI impI)
    fix p s u1 u2 e' q
    assume a: "?d = p @ range_text s u1 u2 e' @ q \<and> is_range s u1 u2 e'"
    then have ne: "pattern (drop (length p) ?d) \<noteq> []"
      using range_pattern by blast
    show "length ''vom '' \<le> length p"
    proof (rule ccontr)
      assume "\<not> length ''vom '' \<le> length p"
      then have "length p < 4" by simp
      then have "length p = 0 \<or> length p = 1 \<or> length p = 2 \<or> length p = 3"
        by arith
      with e ne show False by metis
    qed
  qed
  from parser_date_leftmost[OF d r1 r2 l] r1 r2 e0 e1 e2 e3 show ?thesis by blast
qed

text \<open>
  C10. The two strings the parser returns are both empty or both non-empty.
\<close>

theorem parser_date_both_or_neither:
  "(fst (parser_date dates) = []) = (snd (parser_date dates) = [])"
proof (cases "search dates")
  case None
  then show ?thesis by (simp add: parser_date_def)
next
  case (Some g)
  obtain s e where g: "g = (s, e)" by (cases g) auto
  from search_Some[OF Some[unfolded g]] have "start_token s" "end_token e"
    by (auto simp: is_range_def)
  then have "s \<noteq> []" "e \<noteq> []"
    using start_token_nonempty end_token_nonempty by auto
  with Some g show ?thesis by (simp add: parser_date_def)
qed

section \<open>The collection and the loops of the scraper\<close>

lemma getitem_update: "getitem (AList.update k v d) k = Inr v"
  by (simp add: getitem_def update_conv')

lemma append_coll_eq:
  "append_coll c key data =
     Inr (AList.update key ((case map_of c key of None \<Rightarrow> [] | Some old \<Rightarrow> old) @ data) c)"
proof (cases "key \<in> set (map fst c)")
  case True
  then obtain old where "map_of c key = Some old"
    by (cases "map_of c key") (auto simp: map_of_eq_None_iff)
  with True show ?thesis by (simp add: append_coll_def getitem_def)
next
  case False
  then have "map_of c key = None" by (simp add: map_of_eq_None_iff)
  with False show ?thesis by (simp add: append_coll_def getitem_update)
qed





lemma scrape_links_eq:
  "scrape_links caps links c w =
     (case scrape_each caps links w of
        (Inl e, w1) \<Rightarrow> (Inl e, w1)
      | (Inr rs, w1) \<Rightarrow> (append_each c (zip (map link_name links) rs), w1))"
proof (induction links arbitrary: c w)
  case Nil
  then show ?case by simp
next
  case (Cons link links)
  show ?case
    by (simp add: Cons.IH append_coll_eq split: prod.splits sum.splits)
qed

lemma scrape_each_length:
  "scrape_each caps links w = (Inr rs, w1) \<Longrightarrow> length rs = length links"
proof (induction links arbitrary: rs w)
  case Nil
  then show ?case by simp
next
  case (Cons link links)
  then show ?case
    by (auto split: prod.splits sum.splits)
qed

lemma append_each_Inr: "\<exists>c'. append_each c calls = Inr c'"
proof (induction calls arbitrary: c)
  case Nil
  then show ?case by simp
next
  case (Cons call calls)
  obtain key data where "call = (key, data)" by (cases call) auto
  then show ?case using Cons.IH by (simp add: append_coll_eq)
qed

lemma append_each_keys:
  "append_each c calls = Inr c' \<Longrightarrow> set (map fst c') = set (map fst c) \<union> set (map fst calls)"
proof (induction calls arbitrary: c)
  case Nil
  then show ?case by simp
next
  case (Cons call calls)
  obtain key data where call: "call = (key, data)" by (cases call) auto
  let ?c1 = "AList.update key ((case map_of c key of None \<Rightarrow> [] | Some old \<Rightarrow> old) @ data) c"
  from Cons.prems call have "append_each ?c1 calls = Inr c'"
    by (simp add: append_coll_eq)
  from Cons.IH[OF this] call show ?case
    by (auto simp: update_keys)
qed

lemma append_each_distinct:
  "append_each c calls = Inr c' \<Longrightarrow> distinct (map fst c) \<Longrightarrow> distinct (map fst c')"
proof (induction calls arbitrary: c)
  case Nil
  then show ?case by simp
next
  case (Cons call calls)
  obtain key data where call: "call = (key, data)" by (cases call) auto
  let ?c1 = "AList.update key ((case map_of c key of None \<Rightarrow> [] | Some old \<Rightarrow> old) @ data) c"
  from Cons.prems call have 1: "append_each ?c1 calls = Inr c'"
    by (simp add: append_coll_eq)
  have 2: "distinct (map fst ?c1)" using Cons.prems(2) by (simp add: distinct_update)
  from Cons.IH[OF 1 2] show ?case .
qed

lemma append_each_lookup:
  "append_each c calls = Inr c' \<Longrightarrow> k \<in> set (map fst c) \<union> set (map fst calls) \<Longrightarrow>
     map_of c' k = Some ((case map_of c k of None \<Rightarrow> [] | Some old \<Rightarrow> old) @ records_of k calls)"
proof (induction calls arbitrary: c)
  case Nil
  then obtain old where "map_of c k = Some old"
    by (cases "map_of c k") (auto simp: map_of_eq_None_iff)
  with Nil show ?case by (simp add: records_of_def)
next
  case (Cons call calls)
  obtain key data where call: "call = (key, data)" by (cases call) auto
  let ?c1 = "AList.update key ((case map_of c key of None \<Rightarrow> [] | Some old \<Rightarrow> old) @ data) c"
  from Cons.prems(1) call have 1: "append_each ?c1 calls = Inr c'"
    by (simp add: append_coll_eq)
  from Cons.prems(2) call have 2: "k \<in> set (map fst ?c1) \<union> set (map fst calls)"
    by (auto simp: update_keys)
  have 3: "(case map_of ?c1 k of None \<Rightarrow> [] | Some old \<Rightarrow> old) @ records_of k calls =
           (case map_of c k of None \<Rightarrow> [] | Some old \<Rightarrow> old) @ records_of k (call # calls)"
    by (simp add: update_conv' records_of_def call)
  from Cons.IH[OF 1 2] 3 show ?case by simp
qed

lemma extract_elements_fails:
  assumes "extract_leaflet_data caps element name = (\<lambda>w. (Inl err, w))"
  shows "element \<in> set elements \<Longrightarrow>
           \<exists>e w1. extract_elements caps elements name leaflets w = (Inl e, w1)"
proof (induction elements arbitrary: leaflets w)
  case Nil
  then show ?case by simp
next
  case (Cons x xs)
  show ?case
  proof (cases "extract_leaflet_data caps x name w")
    case (Pair r w1)
    show ?thesis
    proof (cases r)
      case (Inl e)
      with Pair show ?thesis by simp
    next
      case (Inr l)
      with Pair assms have "x \<noteq> element" by auto
      with Cons.prems have "element \<in> set xs" by simp
      from Cons.IH[OF this] Pair Inr show ?thesis by simp
    qed
  qed
qed

lemma extract_leaflet_data_record:
  "extract_leaflet_data caps element name w = (Inr leaflet, w1) \<Longrightarrow>
     record_of_fragment element name leaflet"
  by (auto simp: extract_leaflet_data_def record_of_fragment_def getitem_def Leaflet_init_def
      split: option.splits sum.splits prod.splits)

lemma extract_elements_records:
  "extract_elements caps elements name leaflets w = (Inr records, w1) \<Longrightarrow>
     \<exists>new. records = leaflets @ new \<and> records_of_fragments elements name new"
proof (induction elements arbitrary: leaflets w)
  case Nil
  then show ?case by (simp add: records_of_fragments_def)
next
  case (Cons x xs)
  show ?case
  proof (cases "extract_leaflet_data caps x name w")
    case (Pair r w2)
    show ?thesis
    proof (cases r)
      case (Inl e)
      with Pair Cons.prems show ?thesis by simp
    next
      case (Inr l)
      with Pair Cons.prems have "extract_elements caps xs name (leaflets @ [l]) w2 = (Inr records, w1)"
        by simp
      from Cons.IH[OF this] obtain new where
        n: "records = (leaflets @ [l]) @ new" "records_of_fragments xs name new"
        by blast
      from Pair Inr have "extract_leaflet_data caps x name w = (Inr l, w2)"
        by simp
      then have "record_of_fragment x name l"
        by (rule extract_leaflet_data_record)
      with n have "records = leaflets @ (l # new) \<and> records_of_fragments (x # xs) name (l # new)"
        by (simp add: records_of_fragments_def)
      then show ?thesis by blast
    qed
  qed
qed

lemma scrape_leaflets_fetch:
  "scrape_leaflets caps url name u = (Inr records, u1) \<Longrightarrow>
     \<exists>listing u0. http_client_get caps url u = (Inr listing, u0)"
  by (auto simp: scrape_leaflets_def split: prod.splits sum.splits)

lemma scrape_leaflets_records:
  assumes "http_client_get caps url u = (Inr listing, u0)"
    and "scrape_leaflets caps url name u = (Inr records, u1)"
  shows "records_of_fragments (select (html_parser caps listing) LEAFLET_ELEMENT_SELECTOR)
           name records"
proof -
  from assms have "extract_elements caps
      (select (html_parser caps listing) LEAFLET_ELEMENT_SELECTOR) name [] u0 = (Inr records, u1)"
    by (simp add: scrape_leaflets_def)
  from extract_elements_records[OF this] show ?thesis by simp
qed

lemma scrape_each_nth:
  "scrape_each caps links w = (Inr rs, w1) \<Longrightarrow> i < length links \<Longrightarrow>
     \<exists>u u1. scrape_leaflets caps (link_url (links ! i)) (link_name (links ! i)) u
               = (Inr (rs ! i), u1)"
proof (induction links arbitrary: rs w i)
  case Nil
  then show ?case by simp
next
  case (Cons link links)
  from Cons.prems(1) obtain leaflets w2 rest where
    s: "scrape_leaflets caps (link_url link) (link_name link) w = (Inr leaflets, w2)"
    and r: "scrape_each caps links w2 = (Inr rest, w1)" and rs: "rs = leaflets # rest"
    by (auto split: prod.splits sum.splits)
  show ?case
  proof (cases i)
    case 0
    with s rs show ?thesis by auto
  next
    case (Suc j)
    with Cons.prems(2) have "j < length links" by simp
    from Cons.IH[OF r this] Suc rs show ?thesis by simp
  qed
qed

section \<open>The field extractor, the collection and the orchestration: the claims\<close>

text \<open>
  C5. A listing fragment in which \<^verbatim>\<open>picture img\<close> selects nothing makes the field
  extractor raise: the result is the \<^verbatim>\<open>TypeError\<close> of \<^verbatim>\<open>None['src']\<close>, never a leaflet
  with a thumbnail put in its place. Nothing catches the error: the loop over the
  fragments of a page that contains such a fragment ends with an error, and so does the
  listing scraper.
\<close>

theorem missing_thumbnail_fails:
  assumes "select_one element ''picture img'' = None"
  shows "extract_leaflet_data caps element hypermarket_name w = (Inl TypeError, w) \<and>
         (element \<in> set elements \<longrightarrow>
            (\<exists>e w1. extract_elements caps elements hypermarket_name leaflets w = (Inl e, w1))) \<and>
         (http_client_get caps url w = (Inr content, w0) \<and>
          element \<in> set (select (html_parser caps content) LEAFLET_ELEMENT_SELECTOR) \<longrightarrow>
            (\<exists>e w1. scrape_leaflets caps url hypermarket_name w = (Inl e, w1)))"
proof -
  have f: "extract_leaflet_data caps element hypermarket_name = (\<lambda>w. (Inl TypeError, w))"
    using assms by (simp add: extract_leaflet_data_def fun_eq_iff)
  show ?thesis
  proof (intro conjI impI)
    show "extract_leaflet_data caps element hypermarket_name w = (Inl TypeError, w)"
      using f by simp
    show "\<exists>e w1. extract_elements caps elements hypermarket_name leaflets w = (Inl e, w1)"
      if "element \<in> set elements"
      using extract_elements_fails[OF f that] .
    show "\<exists>e w1. scrape_leaflets caps url hypermarket_name w = (Inl e, w1)"
      if "http_client_get caps url w = (Inr content, w0) \<and>
          element \<in> set (select (html_parser caps content) LEAFLET_ELEMENT_SELECTOR)"
      using that extract_elements_fails[OF f, of _ "[]" w0]
      by (simp add: scrape_leaflets_def)
  qed
qed

theorem missing_thumbnail_fails_witness:
  "select_one bad_fragment ''picture img'' = None \<and>
   extract_leaflet_data scenario bad_fragment ''ShopA'' 0 = (Inl TypeError, 0) \<and>
   bad_fragment \<in> set [fragment1, bad_fragment] \<and>
   (\<exists>e w1. extract_elements scenario [fragment1, bad_fragment] ''ShopA'' [] 0 = (Inl e, w1)) \<and>
   extract_elements scenario [fragment1, bad_fragment] ''ShopA'' [] 0 = (Inl TypeError, 1)"
proof -
  have h: "select_one bad_fragment ''picture img'' = None"
    by (simp add: select_one_def bad_fragment_def DATE_SELECTOR_def)
  have m: "bad_fragment \<in> set [fragment1, bad_fragment]" by simp
  have v: "extract_elements scenario [fragment1, bad_fragment] ''ShopA'' [] 0 = (Inl TypeError, 1)"
    by code_simp
  from missing_thumbnail_fails[OF h, where caps = scenario and hypermarket_name = "''ShopA''"
      and w = 0 and elements = "[fragment1, bad_fragment]" and leaflets = "[]"] h m v
  show ?thesis by blast
qed

text \<open>
  C6. For a fixed key, appending a list of records and then a second list leaves the
  collection that appending the concatenation of the two lists in one call leaves.
\<close>

theorem append_coll_assoc:
  "(case append_coll c key a of Inl e \<Rightarrow> Inl e | Inr c1 \<Rightarrow> append_coll c1 key b) =
   append_coll c key (a @ b)"
  by (simp add: append_coll_eq update_conv')

text \<open>
  C7. \<^verbatim>\<open>append\<close> never raises. In the collection it leaves, the sequence of the key is the
  sequence the key had, the empty one for a key that was absent, followed by the given
  records in their order; every other key has the sequence it had; and a key that was
  absent is put after the keys that were there. The collection is all it returns.
\<close>

theorem append_coll_extends:
  "case append_coll c key data of
     Inl e \<Rightarrow> False
   | Inr c1 \<Rightarrow>
       map_of c1 key = Some ((case map_of c key of None \<Rightarrow> [] | Some old \<Rightarrow> old) @ data) \<and>
       (k \<noteq> key \<longrightarrow> map_of c1 k = map_of c k) \<and>
       map fst c1 = (if key \<in> set (map fst c) then map fst c else map fst c @ [key])"
  by (simp add: append_coll_eq update_conv' update_keys)

theorem append_coll_extends_witness:
  "''ShopA'' \<noteq> ''ShopB'' \<and>
   append_coll [(''ShopA'', [leaflet1])] ''ShopB'' [leaflet1, leaflet1] =
     Inr [(''ShopA'', [leaflet1]), (''ShopB'', [leaflet1, leaflet1])] \<and>
   map_of [(''ShopA'', [leaflet1]), (''ShopB'', [leaflet1, leaflet1])] ''ShopB'' =
     Some ([] @ [leaflet1, leaflet1]) \<and>
   map_of [(''ShopA'', [leaflet1]), (''ShopB'', [leaflet1, leaflet1])] ''ShopA'' =
     map_of [(''ShopA'', [leaflet1])] ''ShopA''"
proof -
  have v: "append_coll [(''ShopA'', [leaflet1])] ''ShopB'' [leaflet1, leaflet1] =
             Inr [(''ShopA'', [leaflet1]), (''ShopB'', [leaflet1, leaflet1])]"
    by (simp add: append_coll_def getitem_def)
  from append_coll_extends[where c = "[(''ShopA'', [leaflet1])]" and key = "''ShopB''"
      and data = "[leaflet1, leaflet1]" and k = "''ShopA''"]
  show ?thesis unfolding v by simp
qed



text \<open>
  C9. Once the directory page is fetched, \<^verbatim>\<open>scrape_all_leaflets\<close> does what scraping the
  retailers one after the other in the order of their links, and then appending each
  name with the whole list of its records, one call for each retailer in the same order,
  does. When every listing is scraped there is one list of records for each link, the
  keys of the collection are the names of the retailers, and each name has the records
  of its links in order. The list of a link is the whole list of its listing page: one
  record for each fragment of the page that was fetched from the address of the link, in
  document order, each with the fields of its fragment. A listing page without fragments
  gives the empty list, not an error, so its retailer is a key of the collection all the
  same.
\<close>

theorem scrape_all_leaflets_order:
  assumes "http_client_get caps (base_url @ ''/hypermarkte/'') w = (Inr content, w0)"
    and "select (html_parser caps content) HYPERMARKET_LINK_SELECTOR = links"
  shows "scrape_all_leaflets caps w =
           (case scrape_each caps links w0 of
              (Inl e, w2) \<Rightarrow> (Inl e, w2)
            | (Inr found, w2) \<Rightarrow> (append_each [] (zip (map link_name links) found), w2)) \<and>
         (scrape_each caps links w0 = (Inr rs, w1) \<longrightarrow>
            length rs = length links \<and>
            (\<exists>c. scrape_all_leaflets caps w = (Inr c, w1) \<and>
                 distinct (map fst c) \<and> set (map fst c) = set (map link_name links) \<and>
                 (link \<in> set links \<longrightarrow>
                    map_of c (link_name link) =
                      Some (records_of (link_name link) (zip (map link_name links) rs)))) \<and>
            (i < length links \<longrightarrow>
               (\<exists>v page v0 v1.
                  http_client_get caps (link_url (links ! i)) v = (Inr page, v0) \<and>
                  scrape_leaflets caps (link_url (links ! i)) (link_name (links ! i)) v
                    = (Inr (rs ! i), v1) \<and>
                  records_of_fragments
                    (select (html_parser caps page) LEAFLET_ELEMENT_SELECTOR)
                    (link_name (links ! i)) (rs ! i)))) \<and>
         (http_client_get caps url u = (Inr listing, u1) \<and>
          scrape_leaflets caps url hypermarket_name u = (Inr records, u2) \<longrightarrow>
            records_of_fragments (select (html_parser caps listing) LEAFLET_ELEMENT_SELECTOR)
              hypermarket_name records) \<and>
         (http_client_get caps url u = (Inr listing, u1) \<and>
          select (html_parser caps listing) LEAFLET_ELEMENT_SELECTOR = [] \<longrightarrow>
            scrape_leaflets caps url hypermarket_name u = (Inr [], u1))"
proof (intro conjI impI)
  show "records_of_fragments (select (html_parser caps listing) LEAFLET_ELEMENT_SELECTOR)
          hypermarket_name records"
    if "http_client_get caps url u = (Inr listing, u1) \<and>
        scrape_leaflets caps url hypermarket_name u = (Inr records, u2)"
  proof -
    from that have f: "http_client_get caps url u = (Inr listing, u1)"
      and l: "scrape_leaflets caps url hypermarket_name u = (Inr records, u2)"
      by simp_all
    from scrape_leaflets_records[OF f l] show ?thesis .
  qed
  show eq: "scrape_all_leaflets caps w =
           (case scrape_each caps links w0 of
              (Inl e, w2) \<Rightarrow> (Inl e, w2)
            | (Inr found, w2) \<Rightarrow> (append_each [] (zip (map link_name links) found), w2))"
    using assms by (simp add: scrape_all_leaflets_def scrape_links_eq)
  show "scrape_leaflets caps url hypermarket_name u = (Inr [], u1)"
    if "http_client_get caps url u = (Inr listing, u1) \<and>
        select (html_parser caps listing) LEAFLET_ELEMENT_SELECTOR = []"
    using that by (simp add: scrape_leaflets_def)
  assume e: "scrape_each caps links w0 = (Inr rs, w1)"
  then show len: "length rs = length links" by (rule scrape_each_length)
  let ?calls = "zip (map link_name links) rs"
  obtain c where c: "append_each [] ?calls = Inr c"
    using append_each_Inr by blast
  have k: "map fst ?calls = map link_name links"
    using len by simp
  have 1: "scrape_all_leaflets caps w = (Inr c, w1)"
    using eq e c by simp
  have 2: "distinct (map fst c)"
    using append_each_distinct[OF c] by simp
  have 3: "set (map fst c) = set (map link_name links)"
    using append_each_keys[OF c] k by simp
  have 4: "map_of c (link_name link) = Some (records_of (link_name link) ?calls)"
    if "link \<in> set links"
  proof -
    from that have "link_name link \<in> set (map fst []) \<union> set (map fst ?calls)"
      unfolding k by simp
    from append_each_lookup[OF c this] show ?thesis by simp
  qed
  from 1 2 3 4 show "\<exists>c. scrape_all_leaflets caps w = (Inr c, w1) \<and>
                 distinct (map fst c) \<and> set (map fst c) = set (map link_name links) \<and>
                 (link \<in> set links \<longrightarrow>
                    map_of c (link_name link) =
                      Some (records_of (link_name link) (zip (map link_name links) rs)))"
    by blast
  show "\<exists>v page v0 v1.
          http_client_get caps (link_url (links ! i)) v = (Inr page, v0) \<and>
          scrape_leaflets caps (link_url (links ! i)) (link_name (links ! i)) v
            = (Inr (rs ! i), v1) \<and>
          records_of_fragments
            (select (html_parser caps page) LEAFLET_ELEMENT_SELECTOR)
            (link_name (links ! i)) (rs ! i)"
    if "i < length links"
  proof -
    from scrape_each_nth[OF e that] obtain v v1 where
      s: "scrape_leaflets caps (link_url (links ! i)) (link_name (links ! i)) v
            = (Inr (rs ! i), v1)"
      by blast
    from scrape_leaflets_fetch[OF s] obtain page v0 where
      g: "http_client_get caps (link_url (links ! i)) v = (Inr page, v0)"
      by blast
    from scrape_leaflets_records[OF g s] g s show ?thesis by blast
  qed
qed

theorem scrape_all_leaflets_order_witness:
  "http_client_get scenario (base_url @ ''/hypermarkte/'') 0 = (Inr (base_url @ ''/hypermarkte/''), 0) \<and>
   select (html_parser scenario (base_url @ ''/hypermarkte/'')) HYPERMARKET_LINK_SELECTOR
     = [link_a, link_b] \<and>
   scrape_each scenario [link_a, link_b] 0 = (Inr [[leaflet1, leaflet2], []], 2) \<and>
   link_b \<in> set [link_a, link_b] \<and>
   select (html_parser scenario (base_url @ ''/a/'')) LEAFLET_ELEMENT_SELECTOR
     = [fragment1, fragment2] \<and>
   scrape_leaflets scenario (base_url @ ''/a/'') ''ShopA'' 0 = (Inr [leaflet1, leaflet2], 2) \<and>
   records_of_fragments [fragment1, fragment2] ''ShopA'' [leaflet1, leaflet2] \<and>
   select (html_parser scenario (base_url @ ''/b/'')) LEAFLET_ELEMENT_SELECTOR = [] \<and>
   scrape_leaflets scenario (base_url @ ''/b/'') ''ShopB'' 0 = (Inr [], 0) \<and>
   scrape_all_leaflets scenario 0 =
     (Inr [(''ShopA'', [leaflet1, leaflet2]), (''ShopB'', [])], 2) \<and>
   serialize [(''ShopA'', [leaflet1, leaflet2]), (''ShopB'', [])] =
     Inr [(''ShopA'', [to_dict leaflet1, to_dict leaflet2]), (''ShopB'', [])]"
proof -
  have g: "http_client_get scenario (base_url @ ''/hypermarkte/'') 0
             = (Inr (base_url @ ''/hypermarkte/''), 0)"
    by (simp add: scenario_def)
  have s: "select (html_parser scenario (base_url @ ''/hypermarkte/'')) HYPERMARKET_LINK_SELECTOR
             = [link_a, link_b]"
    by (simp add: scenario_def scenario_parser_def)
  have e: "scrape_each scenario [link_a, link_b] 0 = (Inr [[leaflet1, leaflet2], []], 2)"
    by code_simp
  have m: "link_b \<in> set [link_a, link_b]" by simp
  have ga: "http_client_get scenario (base_url @ ''/a/'') 0 = (Inr (base_url @ ''/a/''), 0)"
    by (simp add: scenario_def)
  have sa: "select (html_parser scenario (base_url @ ''/a/'')) LEAFLET_ELEMENT_SELECTOR
              = [fragment1, fragment2]"
    by (simp add: scenario_def scenario_parser_def base_url_def)
  have la: "scrape_leaflets scenario (base_url @ ''/a/'') ''ShopA'' 0
              = (Inr [leaflet1, leaflet2], 2)"
    by code_simp
  have gb: "http_client_get scenario (base_url @ ''/b/'') 0 = (Inr (base_url @ ''/b/''), 0)"
    by (simp add: scenario_def)
  have sb: "select (html_parser scenario (base_url @ ''/b/'')) LEAFLET_ELEMENT_SELECTOR = []"
    by (simp add: scenario_def scenario_parser_def base_url_def)
  have a: "append_each [] (zip (map link_name [link_a, link_b]) [[leaflet1, leaflet2], []])
             = Inr [(''ShopA'', [leaflet1, leaflet2]), (''ShopB'', [])]"
    by code_simp
  have z: "serialize [(''ShopA'', [leaflet1, leaflet2]), (''ShopB'', [])] =
             Inr [(''ShopA'', [to_dict leaflet1, to_dict leaflet2]), (''ShopB'', [])]"
    by code_simp
  note t = scrape_all_leaflets_order[OF g s, where rs = "[[leaflet1, leaflet2], []]"
      and ?w1.0 = 2 and link = link_b and url = "base_url @ ''/b/''" and u = 0
      and listing = "base_url @ ''/b/''" and ?u1.0 = 0 and hypermarket_name = "''ShopB''"]
  note t2 = scrape_all_leaflets_order[OF g s, where url = "base_url @ ''/a/''" and u = 0
      and listing = "base_url @ ''/a/''" and ?u1.0 = 0 and hypermarket_name = "''ShopA''"
      and records = "[leaflet1, leaflet2]" and ?u2.0 = 2]
  from t gb sb have b: "scrape_leaflets scenario (base_url @ ''/b/'') ''ShopB'' 0 = (Inr [], 0)"
    by blast
  from t2 ga la have "records_of_fragments
      (select (html_parser scenario (base_url @ ''/a/'')) LEAFLET_ELEMENT_SELECTOR)
      ''ShopA'' [leaflet1, leaflet2]"
    by blast
  then have r: "records_of_fragments [fragment1, fragment2] ''ShopA'' [leaflet1, leaflet2]"
    unfolding sa .
  from t have "scrape_all_leaflets scenario 0 =
           (case scrape_each scenario [link_a, link_b] 0 of
              (Inl e, w2) \<Rightarrow> (Inl e, w2)
            | (Inr found, w2) \<Rightarrow>
                (append_each [] (zip (map link_name [link_a, link_b]) found), w2))"
    by blast
  then have "scrape_all_leaflets scenario 0 =
               (Inr [(''ShopA'', [leaflet1, leaflet2]), (''ShopB'', [])], 2)"
    unfolding e prod.case sum.case a .
  with g s e m sa la r sb b z show ?thesis by blast
qed

end
